theory Spec2Isabelle
  imports Main "HOL-Library.Word" "HOL-Library.Signed_Division"
begin

section \<open>The quad-tree of QuadTree.hpp\<close>

text \<open>
  The class template \<^verbatim>\<open>QuadTree<T, Bound>\<close> takes the object type \<^verbatim>\<open>T\<close> and the
  coordinate type \<^verbatim>\<open>Bound\<close> as parameters. The development instantiates both with
  integer coordinates: a \<^verbatim>\<open>Bound\<close> is a pair of integers \<^verbatim>\<open>x\<close>, \<^verbatim>\<open>y\<close>, and
  \<^verbatim>\<open>/ 2\<close> in \<^verbatim>\<open>split\<close> is the truncating division of C++ (\<open>sdiv\<close>). Coordinates are
  unbounded integers: the model covers the executions without signed overflow, which is
  undefined behaviour in C++. The counters \<^verbatim>\<open>max_objects\<close>, \<^verbatim>\<open>level\<close> and \<^verbatim>\<open>max_level\<close>
  are \<^verbatim>\<open>uint32_t\<close>, so they are 32-bit words and \<^verbatim>\<open>level + 1\<close> wraps. Floating-point
  coordinates are outside the model. The private \<^verbatim>\<open>getIndex\<close> is called by no operation
  and is left out.
\<close>

subsection \<open>Data\<close>

text \<open>\<^verbatim>\<open>Bound\<close>: public variables \<^verbatim>\<open>x\<close>, \<^verbatim>\<open>y\<close>. The same shape serves for what
  \<^verbatim>\<open>getPosition()\<close> and \<^verbatim>\<open>getSize()\<close> return.\<close>

record Bound =
  X :: int
  Y :: int

text \<open>
  \<^verbatim>\<open>T\<close>: an object with \<^verbatim>\<open>getPosition()\<close> and \<^verbatim>\<open>getSize()\<close>. The tree stores
  \<^verbatim>\<open>const T*\<close> and never writes through it; a stored pointer is modelled by the object
  it points to, together with its address \<open>addr\<close>, which tells apart two objects of the
  same geometry. Objects are taken not to move while they are indexed.
\<close>

record T =
  addr :: nat
  getPosition :: Bound
  getSize :: Bound

text \<open>
  A node, with the members in the order of the class. \<^verbatim>\<open>children_nodes\<close> is an array of
  four owning pointers that the constructor and \<^verbatim>\<open>clear\<close> set to \<^verbatim>\<open>nullptr\<close> all four
  and \<^verbatim>\<open>split\<close> sets to fresh nodes all four; nothing else writes it. The list
  \<open>children_nodes\<close> is empty when the four pointers are null and holds the four children,
  in index order, otherwise.
\<close>

datatype QuadTree = QuadTree
  (children_nodes: "QuadTree list")
  (node_objects: "T list")
  (top_left: Bound)
  (bottom_right: Bound)
  (max_objects: "32 word")
  (level: "32 word")
  (max_level: "32 word")

subsection \<open>Operations\<close>

text \<open>The constructor: no children, no objects.\<close>

definition QuadTree_new :: "32 word \<Rightarrow> Bound \<Rightarrow> Bound \<Rightarrow> 32 word \<Rightarrow> 32 word \<Rightarrow> QuadTree" where
  "QuadTree_new pLevel tlc brc max_obj max_lvl = QuadTree [] [] tlc brc max_obj pLevel max_lvl"

text \<open>\<^verbatim>\<open>is_inside\<close>: the four comparisons, in the order of the source.\<close>

definition is_inside :: "QuadTree \<Rightarrow> T \<Rightarrow> bool" where
  "is_inside this object \<longleftrightarrow>
     X (getPosition object) + X (getSize object) \<ge> X (top_left this) \<and>
     X (getPosition object) \<le> X (bottom_right this) \<and>
     Y (getPosition object) + Y (getSize object) \<ge> Y (top_left this) \<and>
     Y (getPosition object) \<le> Y (bottom_right this)"

text \<open>
  \<^verbatim>\<open>clear\<close>: empties the object list; every child is cleared and then its pointer is
  reset, which destroys it. The cleared children are therefore computed and dropped.
\<close>

fun clear :: "QuadTree \<Rightarrow> QuadTree" where
  "clear (QuadTree cs objs tlc brc mo lv ml) =
     (let cleared = map clear cs in QuadTree [] [] tlc brc mo lv ml)"

text \<open>\<^verbatim>\<open>split\<close>: the four children, in index order 0 to 3.\<close>

definition split :: "QuadTree \<Rightarrow> QuadTree" where
  "split this =
     (let tlc = top_left this; brc = bottom_right this;
          hf_width = (X brc - X tlc) sdiv 2;
          hf_height = (Y brc - Y tlc) sdiv 2;
          lv = level this + 1; mo = max_objects this; ml = max_level this
      in QuadTree
           [QuadTree_new lv \<lparr>X = X tlc + hf_width, Y = Y tlc\<rparr> \<lparr>X = X brc, Y = Y tlc + hf_height\<rparr> mo ml,
            QuadTree_new lv \<lparr>X = X tlc, Y = Y tlc\<rparr> \<lparr>X = X tlc + hf_width, Y = Y tlc + hf_height\<rparr> mo ml,
            QuadTree_new lv \<lparr>X = X tlc, Y = Y tlc + hf_height\<rparr> \<lparr>X = X tlc + hf_width, Y = Y brc\<rparr> mo ml,
            QuadTree_new lv \<lparr>X = X tlc + hf_width, Y = Y tlc + hf_height\<rparr> \<lparr>X = X brc, Y = Y brc\<rparr> mo ml]
           (node_objects this) tlc brc mo (level this) ml)"

text \<open>\<^verbatim>\<open>children_nodes[j]->node_objects.push_back(tmpObj)\<close>.\<close>

definition push_back :: "QuadTree \<Rightarrow> T \<Rightarrow> QuadTree" where
  "push_back this object =
     QuadTree (children_nodes this) (node_objects this @ [object]) (top_left this)
       (bottom_right this) (max_objects this) (level this) (max_level this)"

text \<open>
  The \<^verbatim>\<open>while\<close> loop of \<^verbatim>\<open>insert\<close>: while the node holds an object, the last one is
  popped and pushed onto the list of every child it is inside of, in index order.
\<close>

function redistribute :: "QuadTree \<Rightarrow> QuadTree" where
  "redistribute (QuadTree cs objs tlc brc mo lv ml) =
     (if objs = [] then QuadTree cs objs tlc brc mo lv ml
      else let tmpObj = last objs
           in redistribute
                (QuadTree (map (\<lambda>c. if is_inside c tmpObj then push_back c tmpObj else c) cs)
                   (butlast objs) tlc brc mo lv ml))"
  by pat_completeness auto
termination
  by (relation "measure (\<lambda>t. length (node_objects t))") auto

declare redistribute.simps [simp del]

text \<open>
  \<^verbatim>\<open>insert\<close>. The size of the vector is a \<^verbatim>\<open>size_t\<close>, to which \<^verbatim>\<open>max_objects\<close> is
  converted for the comparison: the comparison is on naturals.
\<close>

fun insert_obj :: "QuadTree \<Rightarrow> T \<Rightarrow> QuadTree" where
  "insert_obj (QuadTree cs objs tlc brc mo lv ml) object =
     (if cs \<noteq> [] then
        QuadTree (map (\<lambda>c. if is_inside c object then insert_obj c object else c) cs)
          objs tlc brc mo lv ml
      else
        let this = QuadTree cs (objs @ [object]) tlc brc mo lv ml
        in if length (node_objects this) > unat mo \<and> lv < ml then
             redistribute (if children_nodes this = [] then split this else this)
           else this)"

text \<open>\<^verbatim>\<open>retrieve\<close>: the accumulator is threaded through the children in index order.\<close>

fun retrieve :: "QuadTree \<Rightarrow> T list \<Rightarrow> T \<Rightarrow> T list" where
  "retrieve (QuadTree cs objs tlc brc mo lv ml) obj_vec object =
     (if cs = [] then obj_vec @ objs
      else fold (\<lambda>c acc. if is_inside c object then retrieve c acc object else acc) cs obj_vec)"

subsection \<open>Notions used to state the properties\<close>

text \<open>
  What the redistribution loop makes of a child when the parent's list is \<open>objs\<close>: the
  objects of the list that the child is inside of are appended to the child's list, the
  last of \<open>objs\<close> first.
\<close>

definition handed :: "T list \<Rightarrow> QuadTree \<Rightarrow> QuadTree" where
  "handed objs c =
     QuadTree (children_nodes c) (node_objects c @ filter (is_inside c) (rev objs)) (top_left c)
       (bottom_right c) (max_objects c) (level c) (max_level c)"

text \<open>The leaves of a tree, in index order.\<close>

fun leaves :: "QuadTree \<Rightarrow> QuadTree list" where
  "leaves (QuadTree cs objs tlc brc mo lv ml) =
     (if cs = [] then [QuadTree cs objs tlc brc mo lv ml] else concat (map leaves cs))"

text \<open>
  The bounds of every node are ordered, left \<open>\<le>\<close> right and top \<open>\<le>\<close> bottom, and the
  rectangle of every child lies within its parent's.
\<close>

fun bounds_inv :: "QuadTree \<Rightarrow> bool" where
  "bounds_inv (QuadTree cs objs tlc brc mo lv ml) \<longleftrightarrow>
     X tlc \<le> X brc \<and> Y tlc \<le> Y brc \<and>
     (\<forall>c \<in> set cs. X tlc \<le> X (top_left c) \<and> X (bottom_right c) \<le> X brc \<and>
                    Y tlc \<le> Y (top_left c) \<and> Y (bottom_right c) \<le> Y brc \<and> bounds_inv c)"

text \<open>
  No node is deeper than \<open>max_level\<close>, and every child is one level below its parent (as
  naturals: the increment has not wrapped) and has its parent's \<open>max_level\<close>.
\<close>

fun depth_inv :: "QuadTree \<Rightarrow> bool" where
  "depth_inv (QuadTree cs objs tlc brc mo lv ml) \<longleftrightarrow>
     lv \<le> ml \<and>
     (\<forall>c \<in> set cs. unat (level c) = Suc (unat lv) \<and> max_level c = ml \<and> depth_inv c)"

text \<open>
  The calls of the public interface, and their effect on the tree. \<^verbatim>\<open>retrieve\<close> writes
  only to the vector it is given.
\<close>

datatype call = Insert T | Retrieve "T list" T | Clear

fun exec :: "QuadTree \<Rightarrow> call \<Rightarrow> QuadTree" where
  "exec t (Insert object) = insert_obj t object"
| "exec t (Retrieve obj_vec object) = t"
| "exec t Clear = clear t"

text \<open>An object at address \<open>a\<close> with position \<open>(px, py)\<close> and size \<open>(w, h)\<close>.\<close>

definition object_at :: "nat \<Rightarrow> int \<Rightarrow> int \<Rightarrow> int \<Rightarrow> int \<Rightarrow> T" where
  "object_at a px py w h = \<lparr>addr = a, getPosition = \<lparr>X = px, Y = py\<rparr>, getSize = \<lparr>X = w, Y = h\<rparr>\<rparr>"

text \<open>
  The shape of a node: no children, or four children and no object of its own, and so
  down the tree.
\<close>

fun shape_inv :: "QuadTree \<Rightarrow> bool" where
  "shape_inv (QuadTree cs objs tlc brc mo lv ml) \<longleftrightarrow>
     (cs = [] \<or> length cs = 4 \<and> objs = []) \<and> (\<forall>c \<in> set cs. shape_inv c)"

text \<open>Every reference held anywhere in the tree, node by node.\<close>

fun stored :: "QuadTree \<Rightarrow> T list" where
  "stored (QuadTree cs objs tlc brc mo lv ml) = objs @ concat (map stored cs)"

text \<open>The point \<open>(px, py)\<close> lies in the closed rectangle of the node.\<close>

definition covers :: "QuadTree \<Rightarrow> int \<Rightarrow> int \<Rightarrow> bool" where
  "covers t px py \<longleftrightarrow>
     X (top_left t) \<le> px \<and> px \<le> X (bottom_right t) \<and>
     Y (top_left t) \<le> py \<and> py \<le> Y (bottom_right t)"

section \<open>Basic facts\<close>

lemma push_back_sel [simp]:
  "children_nodes (push_back c a) = children_nodes c"
  "node_objects (push_back c a) = node_objects c @ [a]"
  "top_left (push_back c a) = top_left c"
  "bottom_right (push_back c a) = bottom_right c"
  "max_objects (push_back c a) = max_objects c"
  "level (push_back c a) = level c"
  "max_level (push_back c a) = max_level c"
  by (simp_all add: push_back_def)

lemma handed_sel [simp]:
  "children_nodes (handed objs c) = children_nodes c"
  "node_objects (handed objs c) = node_objects c @ filter (is_inside c) (rev objs)"
  "top_left (handed objs c) = top_left c"
  "bottom_right (handed objs c) = bottom_right c"
  "max_objects (handed objs c) = max_objects c"
  "level (handed objs c) = level c"
  "max_level (handed objs c) = max_level c"
  by (simp_all add: handed_def)

lemma is_inside_bounds:
  "top_left a = top_left b \<Longrightarrow> bottom_right a = bottom_right b \<Longrightarrow> is_inside a = is_inside b"
  by (rule ext) (simp add: is_inside_def)

lemma is_inside_push_back [simp]: "is_inside (push_back c a) = is_inside c"
  by (rule is_inside_bounds) simp_all

lemma is_inside_handed [simp]: "is_inside (handed objs c) = is_inside c"
  by (rule is_inside_bounds) simp_all

lemma handed_Nil [simp]: "handed [] c = c"
  by (simp add: handed_def)

lemma handed_snoc:
  "handed xs (if is_inside c a then push_back c a else c) = handed (xs @ [a]) c"
  by (simp add: handed_def)

lemma redistribute_closed:
  "redistribute (QuadTree cs objs tlc brc mo lv ml) = QuadTree (map (handed objs) cs) [] tlc brc mo lv ml"
proof (induction objs arbitrary: cs rule: rev_induct)
  case Nil
  show ?case by (simp add: redistribute.simps)
next
  case (snoc a xs)
  have "redistribute (QuadTree cs (xs @ [a]) tlc brc mo lv ml) =
        redistribute (QuadTree (map (\<lambda>c. if is_inside c a then push_back c a else c) cs) xs tlc brc mo lv ml)"
    by (subst redistribute.simps) simp
  also have "\<dots> = QuadTree (map (handed xs) (map (\<lambda>c. if is_inside c a then push_back c a else c) cs)) [] tlc brc mo lv ml"
    by (rule snoc.IH)
  also have "map (handed xs) (map (\<lambda>c. if is_inside c a then push_back c a else c) cs) = map (handed (xs @ [a])) cs"
    by (simp add: handed_snoc)
  finally show ?case .
qed

lemma insert_obj_leaf:
  "insert_obj (QuadTree [] objs tlc brc mo lv ml) a =
     (if unat mo < Suc (length objs) \<and> lv < ml
      then QuadTree (map (handed (objs @ [a])) (children_nodes (split (QuadTree [] (objs @ [a]) tlc brc mo lv ml)))) [] tlc brc mo lv ml
      else QuadTree [] (objs @ [a]) tlc brc mo lv ml)"
  by (simp add: Let_def split_def redistribute_closed)

lemma insert_obj_sel [simp]:
  "top_left (insert_obj t a) = top_left t"
  "bottom_right (insert_obj t a) = bottom_right t"
  "max_objects (insert_obj t a) = max_objects t"
  "level (insert_obj t a) = level t"
  "max_level (insert_obj t a) = max_level t"
proof -
  obtain cs objs tlc brc mo lv ml where t: "t = QuadTree cs objs tlc brc mo lv ml"
    by (cases t)
  show "top_left (insert_obj t a) = top_left t"
    "bottom_right (insert_obj t a) = bottom_right t"
    "max_objects (insert_obj t a) = max_objects t"
    "level (insert_obj t a) = level t"
    "max_level (insert_obj t a) = max_level t"
    unfolding t by (cases "cs = []"; simp add: insert_obj_leaf del: insert_obj.simps; simp)+
qed

lemma is_inside_insert_obj [simp]: "is_inside (insert_obj c a) = is_inside c"
  by (rule is_inside_bounds) simp_all

lemma fold_append_acc:
  "(\<And>c acc. c \<in> set cs \<Longrightarrow> f c acc = acc @ g c) \<Longrightarrow> fold f cs acc = acc @ concat (map g cs)"
  by (induction cs arbitrary: acc) simp_all

lemma retrieve_append: "retrieve t obj_vec q = obj_vec @ retrieve t [] q"
proof (induction t arbitrary: obj_vec)
  case (QuadTree cs objs tlc brc mo lv ml)
  show ?case
  proof (cases "cs = []")
    case True
    then show ?thesis by simp
  next
    case False
    have step: "(if is_inside c q then retrieve c acc q else acc) =
        acc @ (if is_inside c q then retrieve c [] q else [])" if "c \<in> set cs" for c acc
      using QuadTree.IH [OF that, of acc] by (cases "is_inside c q") (simp_all only: if_True if_False append_Nil2)
    show ?thesis
      using False
      by (simp add: fold_append_acc [where g = "\<lambda>c. if is_inside c q then retrieve c [] q else []", OF step])
  qed
qed

lemma retrieve_internal:
  "cs \<noteq> [] \<Longrightarrow> retrieve (QuadTree cs objs tlc brc mo lv ml) obj_vec q =
     obj_vec @ concat (map (\<lambda>c. if is_inside c q then retrieve c [] q else []) cs)"
proof -
  assume "cs \<noteq> []"
  have step: "(if is_inside c q then retrieve c acc q else acc) =
        acc @ (if is_inside c q then retrieve c [] q else [])" if "c \<in> set cs" for c acc
    using retrieve_append [of c acc q] by (cases "is_inside c q") (simp_all only: if_True if_False append_Nil2)
  show ?thesis using \<open>cs \<noteq> []\<close>
    by (simp add: fold_append_acc [where g = "\<lambda>c. if is_inside c q then retrieve c [] q else []", OF step])
qed

lemma sdiv2_bounds: "0 \<le> (d::int) \<Longrightarrow> 0 \<le> d sdiv 2 \<and> d sdiv 2 \<le> d"
proof -
  assume "0 \<le> d"
  then have "d sdiv 2 = d div 2"
    by (simp add: signed_divide_int_def sgn_if)
  with \<open>0 \<le> d\<close> show ?thesis by simp
qed

lemma split_sel [simp]:
  "node_objects (split t) = node_objects t"
  "top_left (split t) = top_left t"
  "bottom_right (split t) = bottom_right t"
  "max_objects (split t) = max_objects t"
  "level (split t) = level t"
  "max_level (split t) = max_level t"
  by (simp_all add: split_def Let_def)

lemma children_split:
  "children_nodes (split t) =
    (let hf_width = (X (bottom_right t) - X (top_left t)) sdiv 2;
         hf_height = (Y (bottom_right t) - Y (top_left t)) sdiv 2
     in [QuadTree [] [] \<lparr>X = X (top_left t) + hf_width, Y = Y (top_left t)\<rparr>
           \<lparr>X = X (bottom_right t), Y = Y (top_left t) + hf_height\<rparr>
           (max_objects t) (level t + 1) (max_level t),
         QuadTree [] [] \<lparr>X = X (top_left t), Y = Y (top_left t)\<rparr>
           \<lparr>X = X (top_left t) + hf_width, Y = Y (top_left t) + hf_height\<rparr>
           (max_objects t) (level t + 1) (max_level t),
         QuadTree [] [] \<lparr>X = X (top_left t), Y = Y (top_left t) + hf_height\<rparr>
           \<lparr>X = X (top_left t) + hf_width, Y = Y (bottom_right t)\<rparr>
           (max_objects t) (level t + 1) (max_level t),
         QuadTree [] [] \<lparr>X = X (top_left t) + hf_width, Y = Y (top_left t) + hf_height\<rparr>
           \<lparr>X = X (bottom_right t), Y = Y (bottom_right t)\<rparr>
           (max_objects t) (level t + 1) (max_level t)])"
  by (simp add: split_def Let_def QuadTree_new_def)

text \<open>What holds of every child that split creates.\<close>
lemma split_child:
  assumes "c \<in> set (children_nodes (split t))"
  shows "children_nodes c = []" "node_objects c = []" "level c = level t + 1"
    "max_level c = max_level t" "max_objects c = max_objects t"
  using assms by (auto simp: children_split Let_def)

lemma split_child_bounds:
  assumes "c \<in> set (children_nodes (split t))"
    and "X (top_left t) \<le> X (bottom_right t)" "Y (top_left t) \<le> Y (bottom_right t)"
  shows "X (top_left t) \<le> X (top_left c)" "X (bottom_right c) \<le> X (bottom_right t)"
    "Y (top_left t) \<le> Y (top_left c)" "Y (bottom_right c) \<le> Y (bottom_right t)"
    "X (top_left c) \<le> X (bottom_right c)" "Y (top_left c) \<le> Y (bottom_right c)"
  using assms sdiv2_bounds [of "X (bottom_right t) - X (top_left t)"]
    sdiv2_bounds [of "Y (bottom_right t) - Y (top_left t)"]
  by (auto simp: children_split Let_def)

lemma bounds_inv_handed [simp]: "bounds_inv (handed objs c) = bounds_inv c"
  by (cases c) (simp add: handed_def)

lemma bounds_inv_unfold:
  "bounds_inv t \<longleftrightarrow>
     X (top_left t) \<le> X (bottom_right t) \<and> Y (top_left t) \<le> Y (bottom_right t) \<and>
     (\<forall>c \<in> set (children_nodes t).
        X (top_left t) \<le> X (top_left c) \<and> X (bottom_right c) \<le> X (bottom_right t) \<and>
        Y (top_left t) \<le> Y (top_left c) \<and> Y (bottom_right c) \<le> Y (bottom_right t) \<and> bounds_inv c)"
  by (cases t) simp

lemma bounds_inv_new:
  "X tlc \<le> X brc \<Longrightarrow> Y tlc \<le> Y brc \<Longrightarrow> bounds_inv (QuadTree_new pLevel tlc brc mo ml)"
  by (simp add: QuadTree_new_def)

lemma bounds_inv_clear: "bounds_inv t \<Longrightarrow> bounds_inv (clear t)"
  by (cases t) simp

lemma bounds_inv_insert_obj: "bounds_inv t \<Longrightarrow> bounds_inv (insert_obj t a)"
proof (induction t)
  case (QuadTree cs objs tlc brc mo lv ml)
  show ?case
  proof (cases "cs = []")
    case True
    let ?node = "QuadTree [] (objs @ [a]) tlc brc mo lv ml"
    have ord: "X tlc \<le> X brc" "Y tlc \<le> Y brc"
      using QuadTree.prems by simp_all
    have "bounds_inv c \<and> X tlc \<le> X (top_left c) \<and> X (bottom_right c) \<le> X brc \<and>
          Y tlc \<le> Y (top_left c) \<and> Y (bottom_right c) \<le> Y brc"
      if "c \<in> set (children_nodes (split ?node))" for c
      using split_child_bounds [OF that] split_child(1) [OF that] ord
      by (simp add: bounds_inv_unfold [of c])
    then show ?thesis
      using True ord by (simp add: insert_obj_leaf del: insert_obj.simps)
  next
    case False
    then show ?thesis
      using QuadTree.prems QuadTree.IH by auto
  qed
qed

lemma bounds_inv_exec: "bounds_inv t \<Longrightarrow> bounds_inv (exec t c)"
  by (cases c) (simp_all add: bounds_inv_insert_obj bounds_inv_clear)

lemma bounds_inv_foldl: "bounds_inv t \<Longrightarrow> bounds_inv (foldl exec t calls)"
  by (induction calls arbitrary: t) (simp_all add: bounds_inv_exec)

lemma leaf_inside_up:
  "bounds_inv t \<Longrightarrow> L \<in> set (leaves t) \<Longrightarrow> is_inside L q \<Longrightarrow> is_inside t q"
proof (induction t)
  case (QuadTree cs objs tlc brc mo lv ml)
  show ?case
  proof (cases "cs = []")
    case True
    with QuadTree.prems show ?thesis by simp
  next
    case False
    with QuadTree.prems obtain c where c: "c \<in> set cs" "L \<in> set (leaves c)"
      by auto
    have "is_inside c q"
      using QuadTree.IH [OF c(1) _ c(2)] QuadTree.prems c(1) by simp
    then show ?thesis
      using QuadTree.prems(1) c(1) by (fastforce simp: is_inside_def)
  qed
qed

lemma retrieve_sound_inv:
  "bounds_inv t \<Longrightarrow> L \<in> set (leaves t) \<Longrightarrow> a \<in> set (node_objects L) \<Longrightarrow> is_inside L q \<Longrightarrow>
     a \<in> set (retrieve t obj_vec q)"
proof (induction t arbitrary: obj_vec)
  case (QuadTree cs objs tlc brc mo lv ml)
  show ?case
  proof (cases "cs = []")
    case True
    with QuadTree.prems show ?thesis by auto
  next
    case False
    with QuadTree.prems obtain c where c: "c \<in> set cs" "L \<in> set (leaves c)"
      by auto
    have inv: "bounds_inv c"
      using QuadTree.prems(1) c(1) by simp
    have "is_inside c q"
      using leaf_inside_up [OF inv c(2) QuadTree.prems(4)] .
    moreover have "a \<in> set (retrieve c [] q)"
      using QuadTree.IH [OF c(1) inv c(2) QuadTree.prems(3,4)] .
    ultimately show ?thesis
      using False c(1) by (auto simp: retrieve_internal simp del: retrieve.simps)
  qed
qed

lemma clear_eq:
  "clear t = QuadTree [] [] (top_left t) (bottom_right t) (max_objects t) (level t) (max_level t)"
  by (cases t) simp

lemma exec_sel [simp]:
  "top_left (exec t c) = top_left t"
  "bottom_right (exec t c) = bottom_right t"
  "max_objects (exec t c) = max_objects t"
  "level (exec t c) = level t"
  "max_level (exec t c) = max_level t"
  by (cases c; simp add: clear_eq)+

lemma foldl_exec_sel [simp]:
  "top_left (foldl exec t calls) = top_left t"
  "bottom_right (foldl exec t calls) = bottom_right t"
  "max_objects (foldl exec t calls) = max_objects t"
  "level (foldl exec t calls) = level t"
  "max_level (foldl exec t calls) = max_level t"
  by (induction calls arbitrary: t) simp_all

text \<open>
  Every tree that the constructor and the public operations produce has that shape, which
  is what the representation of \<open>children_nodes\<close> by a list relies on.
\<close>

lemma shape_inv_handed_leaf: "children_nodes c = [] \<Longrightarrow> shape_inv (handed objs c)"
  by (cases c) (simp add: handed_def)

lemma shape_inv_insert_obj: "shape_inv t \<Longrightarrow> shape_inv (insert_obj t a)"
proof (induction t)
  case (QuadTree cs objs tlc brc mo lv ml)
  show ?case
  proof (cases "cs = []")
    case True
    then show ?thesis
      by (simp add: insert_obj_leaf children_split Let_def shape_inv_handed_leaf del: insert_obj.simps)
  next
    case False
    then show ?thesis
      using QuadTree.prems QuadTree.IH by auto
  qed
qed

lemma shape_inv_reachable: "shape_inv (foldl exec (QuadTree_new pLevel tlc brc mo ml) calls)"
proof -
  have "shape_inv t \<Longrightarrow> shape_inv (foldl exec t calls)" for t
  proof (induction calls arbitrary: t)
    case Nil
    then show ?case by simp
  next
    case (Cons c calls)
    have "shape_inv (exec t c)"
      using Cons.prems by (cases c) (simp_all add: shape_inv_insert_obj clear_eq)
    then show ?case by (simp add: Cons.IH)
  qed
  then show ?thesis by (simp add: QuadTree_new_def)
qed

lemma word_Suc: "(lv::32 word) < ml \<Longrightarrow> unat (lv + 1) = Suc (unat lv)"
proof -
  assume "lv < ml"
  then have "unat lv < unat ml"
    by (simp add: word_less_nat_alt)
  moreover have "unat ml < 2 ^ LENGTH(32)"
    by (rule unsigned_less)
  ultimately have "unat lv + unat (1::32 word) < 2 ^ LENGTH(32)"
    by simp
  then have "unat (lv + 1) = unat lv + unat (1::32 word)"
    by (simp only: unat_add_lem)
  then show ?thesis by simp
qed

lemma depth_inv_unfold:
  "depth_inv t \<longleftrightarrow> level t \<le> max_level t \<and>
     (\<forall>c \<in> set (children_nodes t).
        unat (level c) = Suc (unat (level t)) \<and> max_level c = max_level t \<and> depth_inv c)"
  by (cases t) simp

lemma depth_inv_handed [simp]: "depth_inv (handed objs c) = depth_inv c"
  by (cases c) (simp add: handed_def)

lemma depth_inv_new: "pLevel \<le> ml \<Longrightarrow> depth_inv (QuadTree_new pLevel tlc brc mo ml)"
  by (simp add: QuadTree_new_def)

lemma depth_inv_clear: "depth_inv t \<Longrightarrow> depth_inv (clear t)"
  by (cases t) simp

lemma depth_inv_insert_obj: "depth_inv t \<Longrightarrow> depth_inv (insert_obj t a)"
proof (induction t)
  case (QuadTree cs objs tlc brc mo lv ml)
  show ?case
  proof (cases "cs = []")
    case True
    let ?node = "QuadTree [] (objs @ [a]) tlc brc mo lv ml"
    have "depth_inv c \<and> unat (level c) = Suc (unat lv) \<and> max_level c = ml"
      if "c \<in> set (children_nodes (split ?node))" and "lv < ml" for c
      using split_child [OF that(1)] word_Suc [OF that(2)] inc_le [OF that(2)]
      by (simp add: depth_inv_unfold [of c])
    then show ?thesis
      using True QuadTree.prems by (simp add: insert_obj_leaf del: insert_obj.simps)
  next
    case False
    then show ?thesis
      using QuadTree.prems QuadTree.IH by auto
  qed
qed

lemma depth_inv_exec: "depth_inv t \<Longrightarrow> depth_inv (exec t c)"
  by (cases c) (simp_all add: depth_inv_insert_obj depth_inv_clear)

lemma depth_inv_foldl: "depth_inv t \<Longrightarrow> depth_inv (foldl exec t calls)"
  by (induction calls arbitrary: t) (simp_all add: depth_inv_exec)

lemma never_splits_at_max_level:
  "\<not> lv < ml \<Longrightarrow>
     foldl insert_obj (QuadTree [] objs tlc brc mo lv ml) new_objs =
     QuadTree [] (objs @ new_objs) tlc brc mo lv ml"
  by (induction new_objs arbitrary: objs) simp_all

lemma stored_handed_leaf:
  "children_nodes c = [] \<Longrightarrow> stored (handed objs c) = node_objects c @ filter (is_inside c) (rev objs)"
  by (cases c) (simp add: handed_def)

lemma sdiv2_even: "even (d::int) \<Longrightarrow> d - d sdiv 2 = d sdiv 2"
  by (auto simp: signed_divide_int_def sgn_if elim!: evenE)

lemma four_cases:
  assumes "i < j" and "j < (4::nat)"
  obtains "i = 0" "j = 1" | "i = 0" "j = 2" | "i = 0" "j = 3"
    | "i = 1" "j = 2" | "i = 1" "j = 3" | "i = 2" "j = 3"
  using assms by (cases i rule: nat.exhaust; cases j rule: nat.exhaust) force+

lemma two_le_sum_list:
  fixes ns :: "nat list"
  assumes "i < j" and "j < length ns"
  shows "ns ! i + ns ! j \<le> sum_list ns"
proof -
  have "ns = take j ns @ ns ! j # drop (Suc j) ns"
    using assms(2) by (rule id_take_nth_drop)
  then have "sum_list ns = sum_list (take j ns) + ns ! j + sum_list (drop (Suc j) ns)"
    by (metis sum_list.Cons sum_list.append add.assoc)
  moreover have "take j ns ! i \<le> sum_list (take j ns)"
    using assms by (intro elem_le_sum_list) simp
  moreover have "take j ns ! i = ns ! i"
    using assms(1) by simp
  ultimately show ?thesis by simp
qed

lemma count_list_concat: "count_list (concat xss) a = sum_list (map (\<lambda>xs. count_list xs a) xss)"
  by (induction xss) simp_all

lemma insert_obj_stays_leaf:
  assumes "children_nodes (insert_obj c a) = []"
  shows "insert_obj c a = push_back c a"
proof -
  obtain cs objs tlc brc mo lv ml where c: "c = QuadTree cs objs tlc brc mo lv ml"
    by (cases c)
  show ?thesis
  proof (cases "cs = []")
    case True
    with assms show ?thesis
      unfolding c by (simp add: insert_obj_leaf children_split Let_def push_back_def split: if_splits del: insert_obj.simps)
  next
    case False
    with assms show ?thesis unfolding c by simp
  qed
qed

lemma retrieve_leaf: "children_nodes c = [] \<Longrightarrow> retrieve c obj_vec q = obj_vec @ node_objects c"
  by (cases c) simp

text \<open>
  What a tree holds after a leaf has split: the objects of its list, the inserted one
  included, that are inside of one of the four new children. \<open>retrieve\<close> returns only what
  the tree holds.
\<close>

lemma retrieve_subset_stored: "set (retrieve t [] q) \<subseteq> set (stored t)"
proof (induction t)
  case (QuadTree cs objs tlc brc mo lv ml)
  show ?case
  proof (cases "cs = []")
    case True
    then show ?thesis by simp
  next
    case False
    then show ?thesis
      using QuadTree.IH by (auto simp: retrieve_internal simp del: retrieve.simps split: if_splits)
  qed
qed

lemma stored_after_split:
  assumes "children_nodes t = []"
    and "unat (max_objects t) < Suc (length (node_objects t))" and "level t < max_level t"
  shows "set (stored (insert_obj t a)) =
    {x \<in> set (node_objects t @ [a]). \<exists>c \<in> set (children_nodes (split t)). is_inside c x}"
proof -
  obtain cs objs tlc brc mo lv ml where t: "t = QuadTree cs objs tlc brc mo lv ml"
    by (cases t)
  have same: "children_nodes (split (QuadTree [] (objs @ [a]) tlc brc mo lv ml)) = children_nodes (split t)"
    by (simp add: children_split t)
  have eq: "insert_obj t a = QuadTree (map (handed (objs @ [a])) (children_nodes (split t))) [] tlc brc mo lv ml"
    using assms by (simp add: t insert_obj_leaf same del: insert_obj.simps)
  have "set (stored (handed (objs @ [a]) c)) = {x \<in> set (objs @ [a]). is_inside c x}"
    if "c \<in> set (children_nodes (split t))" for c
    using split_child(1,2) [OF that] by (auto simp: stored_handed_leaf)
  then have "set (stored (insert_obj t a)) =
      (\<Union>c \<in> set (children_nodes (split t)). {x \<in> set (objs @ [a]). is_inside c x})"
    unfolding eq by simp
  also have "\<dots> = {x \<in> set (objs @ [a]). \<exists>c \<in> set (children_nodes (split t)). is_inside c x}"
    by blast
  finally show ?thesis by (simp add: t)
qed

text \<open>The facts that evaluate the operations on a concrete tree.\<close>

lemmas run_simps = QuadTree_new_def object_at_def split_def handed_def is_inside_def Let_def
  redistribute_closed signed_divide_int_def

section \<open>C1: retrieval soundness\<close>

text \<open>
  C1. In a tree built by the constructor over bounds with left \<open>\<le>\<close> right and top \<open>\<le>\<close> bottom
  and then driven by any sequence of insert, retrieve and clear calls, an object stored in
  a leaf whose bounds overlap the query object (by \<open>is_inside\<close>) is in the vector that
  \<open>retrieve\<close> returns, whatever the vector held before. The overlap of the object with the
  query is not needed.
\<close>

theorem retrieve_sound:
  assumes "X tlc \<le> X brc" and "Y tlc \<le> Y brc"
    and "t = foldl exec (QuadTree_new pLevel tlc brc mo ml) calls"
    and "L \<in> set (leaves t)" and "a \<in> set (node_objects L)" and "is_inside L q"
  shows "a \<in> set (retrieve t obj_vec q)"
proof -
  have "bounds_inv t"
    unfolding assms(3) by (intro bounds_inv_foldl bounds_inv_new assms(1,2))
  then show ?thesis
    using assms(4-6) by (rule retrieve_sound_inv)
qed

theorem retrieve_sound_witness:
  "X \<lparr>X = 0, Y = 0\<rparr> \<le> X \<lparr>X = 100, Y = 100\<rparr> \<and> Y \<lparr>X = 0, Y = 0\<rparr> \<le> Y \<lparr>X = 100, Y = 100\<rparr> \<and>
   QuadTree [] [object_at 0 10 10 5 5] \<lparr>X = 0, Y = 0\<rparr> \<lparr>X = 50, Y = 50\<rparr> 1 1 4
     \<in> set (leaves (foldl exec (QuadTree_new 0 \<lparr>X = 0, Y = 0\<rparr> \<lparr>X = 100, Y = 100\<rparr> 1 4)
           [Insert (object_at 0 10 10 5 5), Insert (object_at 1 60 60 5 5)])) \<and>
   object_at 0 10 10 5 5
     \<in> set (node_objects (QuadTree [] [object_at 0 10 10 5 5] \<lparr>X = 0, Y = 0\<rparr> \<lparr>X = 50, Y = 50\<rparr> 1 1 4)) \<and>
   is_inside (QuadTree [] [object_at 0 10 10 5 5] \<lparr>X = 0, Y = 0\<rparr> \<lparr>X = 50, Y = 50\<rparr> 1 1 4)
     (object_at 2 12 12 1 1) \<and>
   object_at 0 10 10 5 5
     \<in> set (retrieve (foldl exec (QuadTree_new 0 \<lparr>X = 0, Y = 0\<rparr> \<lparr>X = 100, Y = 100\<rparr> 1 4)
           [Insert (object_at 0 10 10 5 5), Insert (object_at 1 60 60 5 5)]) []
          (object_at 2 12 12 1 1))"
proof -
  let ?t = "foldl exec (QuadTree_new 0 \<lparr>X = 0, Y = 0\<rparr> \<lparr>X = 100, Y = 100\<rparr> 1 4)
           [Insert (object_at 0 10 10 5 5), Insert (object_at 1 60 60 5 5)]"
  let ?L = "QuadTree [] [object_at 0 10 10 5 5] \<lparr>X = 0, Y = 0\<rparr> \<lparr>X = 50, Y = 50\<rparr> 1 1 4"
  have h1: "X \<lparr>X = 0, Y = 0\<rparr> \<le> X \<lparr>X = 100, Y = 100\<rparr>" and h2: "Y \<lparr>X = 0, Y = 0\<rparr> \<le> Y \<lparr>X = 100, Y = 100\<rparr>"
    by simp_all
  have h4: "?L \<in> set (leaves ?t)"
    by (simp add: run_simps)
  have h5: "object_at 0 10 10 5 5 \<in> set (node_objects ?L)"
    by simp
  have h6: "is_inside ?L (object_at 2 12 12 1 1)"
    by (simp add: run_simps)
  show ?thesis
    by (intro conjI h1 h2 h4 h5 h6 retrieve_sound [OF h1 h2 refl h4 h5 h6])
qed

text \<open>
  The order of the bounds is needed. Over bounds whose right edge is left of the left edge,
  a child's rectangle need not lie within its parent's, and \<open>retrieve\<close> can prune a
  subtree that holds a leaf overlapping the query.
\<close>

lemma retrieve_misses_over_disordered_bounds:
  "(let t = foldl exec (QuadTree_new 0 \<lparr>X = 0, Y = 0\<rparr> \<lparr>X = - 10, Y = 10\<rparr> 0 2)
              [Insert (object_at 0 (- 5) 0 5 0), Insert (object_at 1 (- 5) 0 5 0)];
        L = children_nodes (children_nodes t ! 1) ! 1;
        q = object_at 2 (- 2) 0 2 0
    in L \<in> set (leaves t) \<and> object_at 0 (- 5) 0 5 0 \<in> set (node_objects L) \<and> is_inside L q \<and>
       retrieve t [] q = [])"
  by (simp add: run_simps)

section \<open>C2: how insert dispatches\<close>

text \<open>
  C2. At an internal node \<open>insert\<close> leaves the node itself as it is and replaces each
  child whose bounds the object is inside of by the result of inserting the object into it;
  the other children are untouched, so an object inside of several children is inserted into
  each of them. At a leaf the reference is appended to the node's list; the node is then
  kept as it is, or, when the list has grown beyond \<open>max_objects\<close> below \<open>max_level\<close>,
  split and its list redistributed.
\<close>

theorem insert_dispatch:
  "(children_nodes t \<noteq> [] \<longrightarrow>
      insert_obj t a =
        QuadTree (map (\<lambda>c. if is_inside c a then insert_obj c a else c) (children_nodes t))
          (node_objects t) (top_left t) (bottom_right t) (max_objects t) (level t) (max_level t)) \<and>
   (children_nodes t = [] \<longrightarrow>
      insert_obj t a =
        (if unat (max_objects t) < length (node_objects (push_back t a)) \<and> level t < max_level t
         then redistribute (split (push_back t a))
         else push_back t a))"
  by (cases t) (simp add: push_back_def Let_def)

theorem insert_dispatch_witness:
  "insert_obj
     (QuadTree
       [QuadTree [] [] \<lparr>X = 50, Y = 0\<rparr> \<lparr>X = 100, Y = 50\<rparr> 1 1 4,
        QuadTree [] [] \<lparr>X = 0, Y = 0\<rparr> \<lparr>X = 50, Y = 50\<rparr> 1 1 4,
        QuadTree [] [] \<lparr>X = 0, Y = 50\<rparr> \<lparr>X = 50, Y = 100\<rparr> 1 1 4,
        QuadTree [] [] \<lparr>X = 50, Y = 50\<rparr> \<lparr>X = 100, Y = 100\<rparr> 1 1 4]
       [] \<lparr>X = 0, Y = 0\<rparr> \<lparr>X = 100, Y = 100\<rparr> 1 0 4)
     (object_at 0 45 10 10 5) =
   QuadTree
       [QuadTree [] [object_at 0 45 10 10 5] \<lparr>X = 50, Y = 0\<rparr> \<lparr>X = 100, Y = 50\<rparr> 1 1 4,
        QuadTree [] [object_at 0 45 10 10 5] \<lparr>X = 0, Y = 0\<rparr> \<lparr>X = 50, Y = 50\<rparr> 1 1 4,
        QuadTree [] [] \<lparr>X = 0, Y = 50\<rparr> \<lparr>X = 50, Y = 100\<rparr> 1 1 4,
        QuadTree [] [] \<lparr>X = 50, Y = 50\<rparr> \<lparr>X = 100, Y = 100\<rparr> 1 1 4]
       [] \<lparr>X = 0, Y = 0\<rparr> \<lparr>X = 100, Y = 100\<rparr> 1 0 4 \<and>
   insert_obj (QuadTree [] [] \<lparr>X = 0, Y = 0\<rparr> \<lparr>X = 100, Y = 100\<rparr> 1 0 4) (object_at 0 45 10 10 5) =
   QuadTree [] [object_at 0 45 10 10 5] \<lparr>X = 0, Y = 0\<rparr> \<lparr>X = 100, Y = 100\<rparr> 1 0 4"
  using
    insert_dispatch [of "QuadTree
       [QuadTree [] [] \<lparr>X = 50, Y = 0\<rparr> \<lparr>X = 100, Y = 50\<rparr> 1 1 4,
        QuadTree [] [] \<lparr>X = 0, Y = 0\<rparr> \<lparr>X = 50, Y = 50\<rparr> 1 1 4,
        QuadTree [] [] \<lparr>X = 0, Y = 50\<rparr> \<lparr>X = 50, Y = 100\<rparr> 1 1 4,
        QuadTree [] [] \<lparr>X = 50, Y = 50\<rparr> \<lparr>X = 100, Y = 100\<rparr> 1 1 4]
       [] \<lparr>X = 0, Y = 0\<rparr> \<lparr>X = 100, Y = 100\<rparr> 1 0 4" "object_at 0 45 10 10 5"]
    insert_dispatch [of "QuadTree [] [] \<lparr>X = 0, Y = 0\<rparr> \<lparr>X = 100, Y = 100\<rparr> 1 0 4" "object_at 0 45 10 10 5"]
  by (simp add: run_simps push_back_def)

section \<open>C3: the geometry of split\<close>

text \<open>
  C3, amended. With \<open>hw = (r - l) / 2\<close> and \<open>hh = (b - t) / 2\<close> (truncating), \<open>split\<close> creates
  exactly four childless, empty children one level down: child 0 over \<open>(l+hw, t)-(r, t+hh)\<close>,
  child 1 over \<open>(l, t)-(l+hw, t+hh)\<close>, child 2 over \<open>(l, t+hh)-(l+hw, b)\<close> and child 3 over
  \<open>(l+hw, t+hh)-(r, b)\<close>. When \<open>l \<le> r\<close> and \<open>t \<le> b\<close> the four rectangles cover exactly the
  parent's rectangle, and two of them share points only on the lines \<open>x = l+hw\<close> and
  \<open>y = t+hh\<close>. The four are of equal width \<open>hw\<close> and height \<open>hh\<close> when \<open>r - l\<close> and \<open>b - t\<close>
  are even.
\<close>

theorem split_geometry:
  "(let l = X (top_left t); tp = Y (top_left t); r = X (bottom_right t); b = Y (bottom_right t);
        hw = (r - l) sdiv 2; hh = (b - tp) sdiv 2; cs = children_nodes (split t)
    in length cs = 4 \<and>
       (\<forall>c \<in> set cs. level c = level t + 1 \<and> children_nodes c = [] \<and> node_objects c = [] \<and>
          max_objects c = max_objects t \<and> max_level c = max_level t) \<and>
       top_left (cs ! 0) = \<lparr>X = l + hw, Y = tp\<rparr> \<and> bottom_right (cs ! 0) = \<lparr>X = r, Y = tp + hh\<rparr> \<and>
       top_left (cs ! 1) = \<lparr>X = l, Y = tp\<rparr> \<and> bottom_right (cs ! 1) = \<lparr>X = l + hw, Y = tp + hh\<rparr> \<and>
       top_left (cs ! 2) = \<lparr>X = l, Y = tp + hh\<rparr> \<and> bottom_right (cs ! 2) = \<lparr>X = l + hw, Y = b\<rparr> \<and>
       top_left (cs ! 3) = \<lparr>X = l + hw, Y = tp + hh\<rparr> \<and> bottom_right (cs ! 3) = \<lparr>X = r, Y = b\<rparr> \<and>
       (l \<le> r \<and> tp \<le> b \<longrightarrow>
          (\<forall>px py. covers t px py \<longleftrightarrow> (\<exists>c \<in> set cs. covers c px py)) \<and>
          (\<forall>i j px py. i < j \<and> j < 4 \<and> covers (cs ! i) px py \<and> covers (cs ! j) px py \<longrightarrow>
             px = l + hw \<or> py = tp + hh)) \<and>
       (even (r - l) \<and> even (b - tp) \<longrightarrow>
          (\<forall>c \<in> set cs. X (bottom_right c) - X (top_left c) = hw \<and>
                          Y (bottom_right c) - Y (top_left c) = hh)))"
proof -
  define l tp r b where "l = X (top_left t)" and "tp = Y (top_left t)"
    and "r = X (bottom_right t)" and "b = Y (bottom_right t)"
  define hw hh where "hw = (r - l) sdiv 2" and "hh = (b - tp) sdiv 2"
  define cs where "cs = children_nodes (split t)"
  note defs = l_def tp_def r_def b_def hw_def hh_def
  have cs: "cs =
     [QuadTree [] [] \<lparr>X = l + hw, Y = tp\<rparr> \<lparr>X = r, Y = tp + hh\<rparr> (max_objects t) (level t + 1) (max_level t),
      QuadTree [] [] \<lparr>X = l, Y = tp\<rparr> \<lparr>X = l + hw, Y = tp + hh\<rparr> (max_objects t) (level t + 1) (max_level t),
      QuadTree [] [] \<lparr>X = l, Y = tp + hh\<rparr> \<lparr>X = l + hw, Y = b\<rparr> (max_objects t) (level t + 1) (max_level t),
      QuadTree [] [] \<lparr>X = l + hw, Y = tp + hh\<rparr> \<lparr>X = r, Y = b\<rparr> (max_objects t) (level t + 1) (max_level t)]"
    by (simp add: cs_def children_split Let_def defs)
  have shape: "length cs = 4"
    "\<forall>c \<in> set cs. level c = level t + 1 \<and> children_nodes c = [] \<and> node_objects c = [] \<and>
          max_objects c = max_objects t \<and> max_level c = max_level t"
    by (simp_all add: cs)
  have corners:
    "top_left (cs ! 0) = \<lparr>X = l + hw, Y = tp\<rparr>" "bottom_right (cs ! 0) = \<lparr>X = r, Y = tp + hh\<rparr>"
    "top_left (cs ! 1) = \<lparr>X = l, Y = tp\<rparr>" "bottom_right (cs ! 1) = \<lparr>X = l + hw, Y = tp + hh\<rparr>"
    "top_left (cs ! 2) = \<lparr>X = l, Y = tp + hh\<rparr>" "bottom_right (cs ! 2) = \<lparr>X = l + hw, Y = b\<rparr>"
    "top_left (cs ! 3) = \<lparr>X = l + hw, Y = tp + hh\<rparr>" "bottom_right (cs ! 3) = \<lparr>X = r, Y = b\<rparr>"
    by (simp_all add: cs)
  have cov: "covers t px py \<longleftrightarrow> (\<exists>c \<in> set cs. covers c px py)" if "l \<le> r" "tp \<le> b" for px py
  proof -
    have "0 \<le> hw \<and> hw \<le> r - l" "0 \<le> hh \<and> hh \<le> b - tp"
      using that sdiv2_bounds [of "r - l"] sdiv2_bounds [of "b - tp"] by (simp_all add: hw_def hh_def)
    then show ?thesis
      unfolding cs covers_def by (simp add: l_def [symmetric] tp_def [symmetric] r_def [symmetric] b_def [symmetric]) linarith
  qed
  have mid: "px = l + hw \<or> py = tp + hh"
    if "i < j" "j < 4" "covers (cs ! i) px py" "covers (cs ! j) px py" for i j px py
    using that(1,2)
  proof (cases rule: four_cases)
  qed (use that(3,4) in \<open>simp_all add: cs covers_def\<close>)
  have eq: "X (bottom_right c) - X (top_left c) = hw \<and> Y (bottom_right c) - Y (top_left c) = hh"
    if "even (r - l)" "even (b - tp)" "c \<in> set cs" for c
    using that(3) sdiv2_even [OF that(1)] sdiv2_even [OF that(2)]
    unfolding cs by (auto simp: hw_def hh_def)
  show ?thesis
    unfolding Let_def
    using shape corners cov mid eq
    unfolding cs_def defs
    by (intro conjI impI allI ballI; (elim conjE)?; blast)
qed

theorem split_geometry_witness:
  "X (top_left (QuadTree_new 0 \<lparr>X = 0, Y = 0\<rparr> \<lparr>X = 100, Y = 100\<rparr> 1 4))
     \<le> X (bottom_right (QuadTree_new 0 \<lparr>X = 0, Y = 0\<rparr> \<lparr>X = 100, Y = 100\<rparr> 1 4)) \<and>
   Y (top_left (QuadTree_new 0 \<lparr>X = 0, Y = 0\<rparr> \<lparr>X = 100, Y = 100\<rparr> 1 4))
     \<le> Y (bottom_right (QuadTree_new 0 \<lparr>X = 0, Y = 0\<rparr> \<lparr>X = 100, Y = 100\<rparr> 1 4)) \<and>
   covers (QuadTree_new 0 \<lparr>X = 0, Y = 0\<rparr> \<lparr>X = 100, Y = 100\<rparr> 1 4) 30 70 \<and>
   (\<exists>c \<in> set (children_nodes (split (QuadTree_new 0 \<lparr>X = 0, Y = 0\<rparr> \<lparr>X = 100, Y = 100\<rparr> 1 4))).
      covers c 30 70) \<and>
   bottom_right (children_nodes (split (QuadTree_new 0 \<lparr>X = 0, Y = 0\<rparr> \<lparr>X = 100, Y = 100\<rparr> 1 4)) ! 1)
     = \<lparr>X = 50, Y = 50\<rparr>"
proof -
  let ?t = "QuadTree_new 0 \<lparr>X = 0, Y = 0\<rparr> \<lparr>X = 100, Y = 100\<rparr> 1 4"
  note g = split_geometry [of ?t, unfolded Let_def]
  have ord: "X (top_left ?t) \<le> X (bottom_right ?t)" "Y (top_left ?t) \<le> Y (bottom_right ?t)"
    by (simp_all add: QuadTree_new_def)
  have here: "covers ?t 30 70"
    by (simp add: covers_def QuadTree_new_def)
  have "\<exists>c \<in> set (children_nodes (split ?t)). covers c 30 70"
    using g ord here by blast
  moreover have "bottom_right (children_nodes (split ?t) ! 1) = \<lparr>X = 50, Y = 50\<rparr>"
    using g by (simp add: QuadTree_new_def)
  ultimately show ?thesis
    using ord here by blast
qed

text \<open>
  The claim as stated, four equal quadrants, fails on an odd extent: over (0,0)-(5,5) the
  halves are 2, child 1 is 2 wide and child 3 is 3 wide.
\<close>

theorem split_unequal_counterexample:
  "(let t = QuadTree_new 0 \<lparr>X = 0, Y = 0\<rparr> \<lparr>X = 5, Y = 5\<rparr> 1 4; cs = children_nodes (split t)
    in X (top_left t) \<le> X (bottom_right t) \<and> Y (top_left t) \<le> Y (bottom_right t) \<and>
       top_left (cs ! 1) = \<lparr>X = 0, Y = 0\<rparr> \<and> bottom_right (cs ! 1) = \<lparr>X = 2, Y = 2\<rparr> \<and>
       top_left (cs ! 3) = \<lparr>X = 2, Y = 2\<rparr> \<and> bottom_right (cs ! 3) = \<lparr>X = 5, Y = 5\<rparr> \<and>
       X (bottom_right (cs ! 1)) - X (top_left (cs ! 1)) \<noteq> X (bottom_right (cs ! 3)) - X (top_left (cs ! 3)))"
  by (simp add: run_simps)

section \<open>C4: the depth bound\<close>

text \<open>
  C4. In a tree built by the constructor at a level not above \<open>max_level\<close> and then driven by
  any sequence of insert, retrieve and clear calls, every node's level is at most
  \<open>max_level\<close> and every child is exactly one level below its parent, without wrap-around.
  A leaf whose level has reached \<open>max_level\<close> never splits: inserting any list of objects
  into it leaves one leaf that holds them all, for instance 1000 objects in a tree with
  \<open>max_level = 0\<close> and \<open>max_objects = 4\<close>.
\<close>

theorem depth_bound:
  assumes "pLevel \<le> ml"
  shows "depth_inv (foldl exec (QuadTree_new pLevel tlc brc mo ml) calls) \<and>
    (\<forall>lv objs new_objs tlc' brc' mo'. ml \<le> lv \<longrightarrow>
       foldl insert_obj (QuadTree [] objs tlc' brc' mo' lv ml) new_objs =
       QuadTree [] (objs @ new_objs) tlc' brc' mo' lv ml)"
  using assms by (simp add: depth_inv_foldl depth_inv_new never_splits_at_max_level)

theorem depth_bound_witness:
  "(0::32 word) \<le> 4 \<and>
   depth_inv (foldl exec (QuadTree_new 0 \<lparr>X = 0, Y = 0\<rparr> \<lparr>X = 100, Y = 100\<rparr> 1 4)
     [Insert (object_at 0 10 10 5 5), Insert (object_at 1 60 60 5 5),
      Retrieve [] (object_at 2 0 0 100 100), Insert (object_at 3 70 70 5 5)]) \<and>
   (0::32 word) \<le> 0 \<and>
   foldl insert_obj (QuadTree [] [] \<lparr>X = 0, Y = 0\<rparr> \<lparr>X = 100, Y = 100\<rparr> 4 0 0)
     (replicate 1000 (object_at 0 10 10 5 5)) =
   QuadTree [] (replicate 1000 (object_at 0 10 10 5 5)) \<lparr>X = 0, Y = 0\<rparr> \<lparr>X = 100, Y = 100\<rparr> 4 0 0"
proof -
  have h: "(0::32 word) \<le> 4" and h0: "(0::32 word) \<le> 0"
    by simp_all
  note d = depth_bound [OF h, THEN conjunct1]
  have n: "foldl insert_obj (QuadTree [] [] \<lparr>X = 0, Y = 0\<rparr> \<lparr>X = 100, Y = 100\<rparr> 4 0 0)
     (replicate 1000 (object_at 0 10 10 5 5)) =
   QuadTree [] (replicate 1000 (object_at 0 10 10 5 5)) \<lparr>X = 0, Y = 0\<rparr> \<lparr>X = 100, Y = 100\<rparr> 4 0 0"
    using depth_bound [OF h0, THEN conjunct2, rule_format, OF h0, of "[]"] by simp
  show ?thesis
    by (intro conjI h h0 d n)
qed

text \<open>A root constructed above \<open>max_level\<close> is itself deeper than \<open>max_level\<close>.\<close>

lemma depth_exceeded_by_root_above_max_level:
  "\<not> depth_inv (QuadTree_new 5 tlc brc mo 2)"
  by (simp add: QuadTree_new_def)

section \<open>C5: leaf capacity\<close>

text \<open>
  C5. The claim is that after an insert no leaf below \<open>max_level\<close> holds more than
  \<open>max_objects\<close> objects. The redistribution loop pushes the objects straight onto the
  children's lists, without the capacity check that \<open>insert\<close> makes. With bounds
  (0,0)-(100,100), \<open>max_objects = 1\<close> and \<open>max_level = 4\<close>, inserting objects at (10,10) and
  (20,20), both of size (5,5), splits the root and leaves child 1 a leaf at level 1 that
  holds both.
\<close>

theorem leaf_over_capacity_after_insert:
  "(let t0 = QuadTree_new 0 \<lparr>X = 0, Y = 0\<rparr> \<lparr>X = 100, Y = 100\<rparr> 1 4;
        t2 = insert_obj (insert_obj t0 (object_at 0 10 10 5 5)) (object_at 1 20 20 5 5);
        L = children_nodes t2 ! 1
    in L \<in> set (leaves t2) \<and> children_nodes L = [] \<and>
       node_objects L = [object_at 1 20 20 5 5, object_at 0 10 10 5 5] \<and>
       level L = 1 \<and> max_level L = 4 \<and> level L < max_level L \<and>
       max_objects L = 1 \<and> unat (max_objects L) < length (node_objects L))"
  by (simp add: run_simps)

text \<open>
  What does hold: the leaf that receives the object and overflows below \<open>max_level\<close> ends
  with an empty list and four leaf children, each holding, latest first, the objects of the
  list that are inside of it.
\<close>

lemma overflowing_leaf_splits:
  assumes "children_nodes t = []"
    and "unat (max_objects t) < Suc (length (node_objects t))" and "level t < max_level t"
  shows "node_objects (insert_obj t a) = []"
    and "length (children_nodes (insert_obj t a)) = 4"
    and "i < 4 \<Longrightarrow> children_nodes (children_nodes (insert_obj t a) ! i) = []"
    and "i < 4 \<Longrightarrow> node_objects (children_nodes (insert_obj t a) ! i) =
           filter (is_inside (children_nodes (split t) ! i)) (rev (node_objects t @ [a]))"
proof -
  obtain cs objs tlc brc mo lv ml where t: "t = QuadTree cs objs tlc brc mo lv ml"
    by (cases t)
  have same: "children_nodes (split (QuadTree [] (objs @ [a]) tlc brc mo lv ml)) = children_nodes (split t)"
    by (simp add: children_split t)
  have eq: "insert_obj t a = QuadTree (map (handed (objs @ [a])) (children_nodes (split t))) [] tlc brc mo lv ml"
    using assms by (simp add: t insert_obj_leaf same del: insert_obj.simps)
  have len: "length (children_nodes (split t)) = 4"
    by (simp add: children_split Let_def)
  show "node_objects (insert_obj t a) = []" "length (children_nodes (insert_obj t a)) = 4"
    by (simp_all add: eq len)
  have mem: "children_nodes (split t) ! i \<in> set (children_nodes (split t))" if "i < 4"
    using that len by simp
  show "children_nodes (children_nodes (insert_obj t a) ! i) = []" if "i < 4"
    using that len split_child(1) [OF mem [OF that]] by (simp add: eq)
  show "node_objects (children_nodes (insert_obj t a) ! i) =
           filter (is_inside (children_nodes (split t) ! i)) (rev (node_objects t @ [a]))" if "i < 4"
  proof -
    have "node_objects t = objs" by (simp add: t)
    then show ?thesis
      using that len split_child(2) [OF mem [OF that]] unfolding eq by simp
  qed
qed

section \<open>C6: the overlap test\<close>

text \<open>
  C6. \<open>is_inside\<close> holds exactly when the object's right edge is not left of the node's left
  edge, its left edge not right of the node's right edge, its bottom edge not above the
  node's top edge and its top edge not below the node's bottom edge: all four comparisons
  are inclusive. Over (0,0)-(100,100), an object of size (5,5) at (-5,-5) or at (100,100)
  touches a corner and is inside; at (101,100) it is not.
\<close>

theorem is_inside_iff:
  "(is_inside node object \<longleftrightarrow>
     X (getPosition object) + X (getSize object) \<ge> X (top_left node) \<and>
     X (getPosition object) \<le> X (bottom_right node) \<and>
     Y (getPosition object) + Y (getSize object) \<ge> Y (top_left node) \<and>
     Y (getPosition object) \<le> Y (bottom_right node)) \<and>
   is_inside (QuadTree_new 0 \<lparr>X = 0, Y = 0\<rparr> \<lparr>X = 100, Y = 100\<rparr> 1 4) (object_at 0 (- 5) (- 5) 5 5) \<and>
   is_inside (QuadTree_new 0 \<lparr>X = 0, Y = 0\<rparr> \<lparr>X = 100, Y = 100\<rparr> 1 4) (object_at 0 100 100 5 5) \<and>
   \<not> is_inside (QuadTree_new 0 \<lparr>X = 0, Y = 0\<rparr> \<lparr>X = 100, Y = 100\<rparr> 1 4) (object_at 0 101 100 5 5)"
  by (simp add: is_inside_def QuadTree_new_def object_at_def)

text \<open>
  For an object of non-negative size and a node with ordered bounds, the test says that
  the two closed rectangles share a point.
\<close>

lemma is_inside_shares_point:
  assumes "0 \<le> X (getSize a)" and "0 \<le> Y (getSize a)"
    and "X (top_left n) \<le> X (bottom_right n)" and "Y (top_left n) \<le> Y (bottom_right n)"
  shows "is_inside n a \<longleftrightarrow>
    (\<exists>px py. covers n px py \<and>
       X (getPosition a) \<le> px \<and> px \<le> X (getPosition a) + X (getSize a) \<and>
       Y (getPosition a) \<le> py \<and> py \<le> Y (getPosition a) + Y (getSize a))"
proof
  assume "is_inside n a"
  then have "covers n (max (X (top_left n)) (X (getPosition a))) (max (Y (top_left n)) (Y (getPosition a))) \<and>
       X (getPosition a) \<le> max (X (top_left n)) (X (getPosition a)) \<and>
       max (X (top_left n)) (X (getPosition a)) \<le> X (getPosition a) + X (getSize a) \<and>
       Y (getPosition a) \<le> max (Y (top_left n)) (Y (getPosition a)) \<and>
       max (Y (top_left n)) (Y (getPosition a)) \<le> Y (getPosition a) + Y (getSize a)"
    using assms by (simp add: is_inside_def covers_def)
  then show "\<exists>px py. covers n px py \<and>
       X (getPosition a) \<le> px \<and> px \<le> X (getPosition a) + X (getSize a) \<and>
       Y (getPosition a) \<le> py \<and> py \<le> Y (getPosition a) + Y (getSize a)"
    by blast
next
  assume "\<exists>px py. covers n px py \<and>
       X (getPosition a) \<le> px \<and> px \<le> X (getPosition a) + X (getSize a) \<and>
       Y (getPosition a) \<le> py \<and> py \<le> Y (getPosition a) + Y (getSize a)"
  then show "is_inside n a"
    by (auto simp: is_inside_def covers_def)
qed

section \<open>C7: clear\<close>

text \<open>
  C7. \<open>clear\<close> turns any node into a leaf without objects and keeps its bounds, level,
  \<open>max_objects\<close> and \<open>max_level\<close>; after any sequence of calls on a constructed tree it gives
  back the tree as constructed; on the tree as constructed it changes nothing; clearing
  twice is clearing once.
\<close>

theorem clear_resets:
  "clear t = QuadTree [] [] (top_left t) (bottom_right t) (max_objects t) (level t) (max_level t) \<and>
   clear (foldl exec (QuadTree_new pLevel tlc brc mo ml) calls) = QuadTree_new pLevel tlc brc mo ml \<and>
   clear (QuadTree_new pLevel tlc brc mo ml) = QuadTree_new pLevel tlc brc mo ml \<and>
   clear (clear t) = clear t"
proof -
  have "clear (foldl exec (QuadTree_new pLevel tlc brc mo ml) calls) = QuadTree_new pLevel tlc brc mo ml"
    by (simp add: clear_eq [of "foldl exec _ _"]) (simp add: QuadTree_new_def)
  moreover have "clear (QuadTree_new pLevel tlc brc mo ml) = QuadTree_new pLevel tlc brc mo ml"
    by (simp add: QuadTree_new_def)
  moreover have "clear (clear t) = clear t"
    by (cases t) simp
  ultimately show ?thesis
    using clear_eq [of t] by simp
qed

section \<open>C8: duplicates\<close>

text \<open>
  C8, amended. Let an object be inserted into an internal node, let it be inside of two
  different children that are leaves once the insertion is done, and let the query be
  inside of both. Then \<open>retrieve\<close> adds the object to the vector at least twice.
\<close>

theorem duplicate_tolerance:
  assumes "children_nodes t \<noteq> []"
    and "i < j" and "j < length (children_nodes t)"
    and "is_inside (children_nodes t ! i) a" and "is_inside (children_nodes t ! j) a"
    and "children_nodes (insert_obj (children_nodes t ! i) a) = []"
    and "children_nodes (insert_obj (children_nodes t ! j) a) = []"
    and "is_inside (children_nodes t ! i) q" and "is_inside (children_nodes t ! j) q"
  shows "count_list obj_vec a + 2 \<le> count_list (retrieve (insert_obj t a) obj_vec q) a"
proof -
  obtain cs objs tlc brc mo lv ml where t: "t = QuadTree cs objs tlc brc mo lv ml"
    by (cases t)
  define cs' where "cs' = map (\<lambda>c. if is_inside c a then insert_obj c a else c) cs"
  define ns where "ns = map (\<lambda>c. count_list (if is_inside c q then retrieve c [] q else []) a) cs'"
  have cs: "cs \<noteq> []" "i < length cs" "j < length cs"
    using assms(1-3) by (simp_all add: t)
  have once: "1 \<le> ns ! k"
    if "k < length cs" "is_inside (cs ! k) a" "children_nodes (insert_obj (cs ! k) a) = []"
      "is_inside (cs ! k) q" for k
  proof -
    have same: "insert_obj (cs ! k) a = push_back (cs ! k) a"
      using that(3) by (rule insert_obj_stays_leaf)
    have leaf: "children_nodes (push_back (cs ! k) a) = []"
      using that(3) by (simp only: same)
    have "cs' ! k = push_back (cs ! k) a"
      using that(1,2) same by (simp add: cs'_def)
    then have "ns ! k = count_list (retrieve (push_back (cs ! k) a) [] q) a"
      using that(1,4) by (simp add: ns_def cs'_def del: retrieve.simps)
    also have "\<dots> = count_list (node_objects (cs ! k) @ [a]) a"
      by (simp add: retrieve_leaf [OF leaf] del: retrieve.simps)
    finally show ?thesis by simp
  qed
  have "2 \<le> ns ! i + ns ! j"
    using once [of i] once [of j] cs(2,3) assms(4-9) by (simp add: t)
  also have "\<dots> \<le> sum_list ns"
    using assms(2) cs(3) by (intro two_le_sum_list) (simp_all add: ns_def cs'_def)
  finally have "2 \<le> sum_list ns" .
  moreover have "retrieve (insert_obj t a) obj_vec q =
      obj_vec @ concat (map (\<lambda>c. if is_inside c q then retrieve c [] q else []) cs')"
    using cs(1) by (simp add: t cs'_def retrieve_internal del: retrieve.simps)
  ultimately show ?thesis
    by (simp add: count_list_concat ns_def comp_def)
qed

theorem duplicate_tolerance_witness:
  "children_nodes (split (QuadTree_new 0 \<lparr>X = 0, Y = 0\<rparr> \<lparr>X = 100, Y = 100\<rparr> 1 4)) \<noteq> [] \<and>
   (0::nat) < 1 \<and>
   1 < length (children_nodes (split (QuadTree_new 0 \<lparr>X = 0, Y = 0\<rparr> \<lparr>X = 100, Y = 100\<rparr> 1 4))) \<and>
   is_inside (children_nodes (split (QuadTree_new 0 \<lparr>X = 0, Y = 0\<rparr> \<lparr>X = 100, Y = 100\<rparr> 1 4)) ! 0)
     (object_at 0 45 10 10 5) \<and>
   is_inside (children_nodes (split (QuadTree_new 0 \<lparr>X = 0, Y = 0\<rparr> \<lparr>X = 100, Y = 100\<rparr> 1 4)) ! 1)
     (object_at 0 45 10 10 5) \<and>
   is_inside (children_nodes (split (QuadTree_new 0 \<lparr>X = 0, Y = 0\<rparr> \<lparr>X = 100, Y = 100\<rparr> 1 4)) ! 0)
     (object_at 1 40 30 20 2) \<and>
   is_inside (children_nodes (split (QuadTree_new 0 \<lparr>X = 0, Y = 0\<rparr> \<lparr>X = 100, Y = 100\<rparr> 1 4)) ! 1)
     (object_at 1 40 30 20 2) \<and>
   count_list [] (object_at 0 45 10 10 5) + 2
     \<le> count_list
         (retrieve
           (insert_obj (split (QuadTree_new 0 \<lparr>X = 0, Y = 0\<rparr> \<lparr>X = 100, Y = 100\<rparr> 1 4))
             (object_at 0 45 10 10 5))
           [] (object_at 1 40 30 20 2))
         (object_at 0 45 10 10 5)"
proof -
  let ?t = "split (QuadTree_new 0 \<lparr>X = 0, Y = 0\<rparr> \<lparr>X = 100, Y = 100\<rparr> 1 4)"
  let ?a = "object_at 0 45 10 10 5"
  let ?q = "object_at 1 40 30 20 2"
  have h1: "children_nodes ?t \<noteq> []" and h2: "(0::nat) < 1" and h3: "1 < length (children_nodes ?t)"
    by (simp_all add: run_simps)
  have h4: "is_inside (children_nodes ?t ! 0) ?a" and h5: "is_inside (children_nodes ?t ! 1) ?a"
    by (simp_all add: run_simps)
  have h6: "children_nodes (insert_obj (children_nodes ?t ! 0) ?a) = []"
    and h7: "children_nodes (insert_obj (children_nodes ?t ! 1) ?a) = []"
    by (simp_all add: run_simps)
  have h8: "is_inside (children_nodes ?t ! 0) ?q" and h9: "is_inside (children_nodes ?t ! 1) ?q"
    by (simp_all add: run_simps)
  show ?thesis
    by (intro conjI h1 h2 h3 h4 h5 h8 h9 duplicate_tolerance [OF h1 h2 h3 h4 h5 h6 h7 h8 h9])
qed

text \<open>
  The claim as stated fails when a straddled quadrant splits. Bounds (0,0)-(100,100),
  \<open>max_objects = 1\<close>, \<open>max_level = 4\<close>; objects at (10,10) and (60,60) of size (5,5) are
  inserted first, which splits the root into four leaves. The object at (20,10) of size
  (35,5) is inside of children 0 and 1; child 1 already holds an object and splits on the
  insertion, so the object lands in the sibling leaves 0 and 1 of child 1, and in child 0
  of the root. The query at (45,30) of size (10,10) is inside of children 0 and 1 of the
  root, but within child 1 only of its child 3: the object is retrieved once.
\<close>

theorem duplicate_once_counterexample:
  "(let t = insert_obj (insert_obj (QuadTree_new 0 \<lparr>X = 0, Y = 0\<rparr> \<lparr>X = 100, Y = 100\<rparr> 1 4)
              (object_at 0 10 10 5 5)) (object_at 1 60 60 5 5);
        a = object_at 2 20 10 35 5;
        q = object_at 3 45 30 10 10;
        t' = insert_obj t a
    in length (children_nodes t) = 4 \<and>
       children_nodes (children_nodes t ! 0) = [] \<and> children_nodes (children_nodes t ! 1) = [] \<and>
       is_inside (children_nodes t ! 0) a \<and> is_inside (children_nodes t ! 1) a \<and>
       is_inside (children_nodes t ! 0) q \<and> is_inside (children_nodes t ! 1) q \<and>
       children_nodes (children_nodes (children_nodes t' ! 1) ! 0) = [] \<and>
       children_nodes (children_nodes (children_nodes t' ! 1) ! 1) = [] \<and>
       a \<in> set (node_objects (children_nodes (children_nodes t' ! 1) ! 0)) \<and>
       a \<in> set (node_objects (children_nodes (children_nodes t' ! 1) ! 1)) \<and>
       a \<in> set (node_objects (children_nodes t' ! 0)) \<and>
       retrieve t' [] q = [a] \<and>
       count_list (retrieve t' [] q) a = 1)"
  by (simp add: run_simps)

section \<open>C9: the end-to-end scenario\<close>

text \<open>
  C9. Bounds (0,0)-(100,100), \<open>max_objects = 1\<close>, \<open>max_level = 4\<close>. After inserting A at
  (10,10) of size (5,5) the root is still a leaf holding A. Inserting B at (60,60) of size
  (5,5) makes the list hold two objects, more than \<open>max_objects\<close>, and the root splits into
  four children and keeps no object. A query at (10,10) of size (5,5) then retrieves
  exactly A, and a query spanning (0,0)-(100,100) retrieves A and B.
\<close>

theorem end_to_end_scenario:
  "(let t0 = QuadTree_new 0 \<lparr>X = 0, Y = 0\<rparr> \<lparr>X = 100, Y = 100\<rparr> 1 4;
        A = object_at 0 10 10 5 5;
        B = object_at 1 60 60 5 5;
        t1 = insert_obj t0 A;
        t2 = insert_obj t1 B
    in children_nodes t1 = [] \<and> node_objects t1 = [A] \<and>
       unat (max_objects t1) < length (node_objects t1 @ [B]) \<and>
       length (children_nodes t2) = 4 \<and> node_objects t2 = [] \<and>
       retrieve t2 [] (object_at 2 10 10 5 5) = [A] \<and>
       retrieve t2 [] (object_at 3 0 0 100 100) = [A, B])"
  by (simp add: run_simps)

section \<open>C10: objects outside the bounds\<close>

text \<open>
  C10. A leaf that does not split appends the object without looking at its own bounds,
  and \<open>retrieve\<close> on that leaf returns it with the rest of the list. An internal node none
  of whose children the object is inside of is left unchanged by the insertion. A leaf that
  splits on the insertion of an object that is inside of none of the four new children ends
  as if the object had not been appended. When a leaf splits, the tree holds afterwards
  exactly the objects of its list, the inserted one included, that are inside of one of the
  four new children: every object that is inside of none of them, whether it is the one
  inserted or one the leaf held before, is in no node of the result and in no vector that
  \<open>retrieve\<close> returns from it.
\<close>

theorem out_of_bounds_handling:
  "(children_nodes t = [] \<and> \<not> (unat (max_objects t) < Suc (length (node_objects t)) \<and> level t < max_level t) \<longrightarrow>
      insert_obj t a = push_back t a \<and>
      retrieve (insert_obj t a) obj_vec q = obj_vec @ node_objects t @ [a]) \<and>
   (children_nodes t \<noteq> [] \<and> (\<forall>c \<in> set (children_nodes t). \<not> is_inside c a) \<longrightarrow>
      insert_obj t a = t) \<and>
   (children_nodes t = [] \<and> unat (max_objects t) < Suc (length (node_objects t)) \<and> level t < max_level t \<and>
    (\<forall>c \<in> set (children_nodes (split t)). \<not> is_inside c a) \<longrightarrow>
      insert_obj t a = redistribute (split t) \<and> a \<notin> set (stored (insert_obj t a))) \<and>
   (children_nodes t = [] \<and> unat (max_objects t) < Suc (length (node_objects t)) \<and> level t < max_level t \<longrightarrow>
      set (stored (insert_obj t a)) =
        {x \<in> set (node_objects t @ [a]). \<exists>c \<in> set (children_nodes (split t)). is_inside c x} \<and>
      (\<forall>x. (\<forall>c \<in> set (children_nodes (split t)). \<not> is_inside c x) \<longrightarrow>
         x \<notin> set (stored (insert_obj t a)) \<and> (\<forall>q'. x \<notin> set (retrieve (insert_obj t a) [] q'))))"
proof -
  obtain cs objs tlc brc mo lv ml where t: "t = QuadTree cs objs tlc brc mo lv ml"
    by (cases t)
  have leaf: "insert_obj t a = push_back t a \<and>
      retrieve (insert_obj t a) obj_vec q = obj_vec @ node_objects t @ [a]"
    if "children_nodes t = []" "\<not> (unat (max_objects t) < Suc (length (node_objects t)) \<and> level t < max_level t)"
    using that unfolding t by (auto simp: push_back_def)
  have internal: "insert_obj t a = t"
    if "children_nodes t \<noteq> []" "\<forall>c \<in> set (children_nodes t). \<not> is_inside c a"
    using that unfolding t by (simp add: map_idI)
  have dropped: "insert_obj t a = redistribute (split t) \<and> a \<notin> set (stored (insert_obj t a))"
    if "children_nodes t = []" "unat (max_objects t) < Suc (length (node_objects t))" "level t < max_level t"
      "\<forall>c \<in> set (children_nodes (split t)). \<not> is_inside c a"
  proof -
    have cs: "cs = []" using that(1) by (simp add: t)
    have same: "children_nodes (split (QuadTree [] (objs @ [a]) tlc brc mo lv ml)) = children_nodes (split t)"
      by (simp add: children_split t)
    have eq: "insert_obj t a = QuadTree (map (handed (objs @ [a])) (children_nodes (split t))) [] tlc brc mo lv ml"
      using that(2,3) by (simp add: t cs insert_obj_leaf same del: insert_obj.simps)
    have h: "handed (objs @ [a]) c = handed objs c" if "c \<in> set (children_nodes (split t))" for c
      using that \<open>\<forall>c \<in> set (children_nodes (split t)). \<not> is_inside c a\<close> by (simp add: handed_def)
    have "map (handed (objs @ [a])) (children_nodes (split t)) = map (handed objs) (children_nodes (split t))"
      using h by simp
    moreover have "redistribute (split t) = QuadTree (map (handed objs) (children_nodes (split t))) [] tlc brc mo lv ml"
      by (simp add: t cs split_def Let_def redistribute_closed)
    ultimately have 1: "insert_obj t a = redistribute (split t)"
      using eq by simp
    have "a \<notin> set (stored (insert_obj t a))"
      using that(4) by (simp add: stored_after_split [OF that(1-3)])
    with 1 show ?thesis by simp
  qed
  have every: "set (stored (insert_obj t a)) =
        {x \<in> set (node_objects t @ [a]). \<exists>c \<in> set (children_nodes (split t)). is_inside c x} \<and>
      (\<forall>x. (\<forall>c \<in> set (children_nodes (split t)). \<not> is_inside c x) \<longrightarrow>
         x \<notin> set (stored (insert_obj t a)) \<and> (\<forall>q'. x \<notin> set (retrieve (insert_obj t a) [] q')))"
    if "children_nodes t = []" "unat (max_objects t) < Suc (length (node_objects t))" "level t < max_level t"
  proof -
    note st = stored_after_split [OF that, of a]
    have "x \<notin> set (stored (insert_obj t a)) \<and> (\<forall>q'. x \<notin> set (retrieve (insert_obj t a) [] q'))"
      if "\<forall>c \<in> set (children_nodes (split t)). \<not> is_inside c x" for x
    proof -
      have "x \<notin> set (stored (insert_obj t a))"
        using that by (simp add: st)
      then show ?thesis
        using retrieve_subset_stored [of "insert_obj t a"] by blast
    qed
    with st show ?thesis by blast
  qed
  show ?thesis
    using leaf internal dropped every by blast
qed

theorem out_of_bounds_handling_witness:
  "insert_obj (QuadTree [] [] \<lparr>X = 0, Y = 0\<rparr> \<lparr>X = 100, Y = 100\<rparr> 4 0 4) (object_at 0 500 500 5 5) =
     QuadTree [] [object_at 0 500 500 5 5] \<lparr>X = 0, Y = 0\<rparr> \<lparr>X = 100, Y = 100\<rparr> 4 0 4 \<and>
   \<not> is_inside (QuadTree [] [] \<lparr>X = 0, Y = 0\<rparr> \<lparr>X = 100, Y = 100\<rparr> 4 0 4) (object_at 0 500 500 5 5) \<and>
   retrieve (insert_obj (QuadTree [] [] \<lparr>X = 0, Y = 0\<rparr> \<lparr>X = 100, Y = 100\<rparr> 4 0 4) (object_at 0 500 500 5 5))
     [] (object_at 1 10 10 5 5) = [object_at 0 500 500 5 5] \<and>
   insert_obj (split (QuadTree [] [] \<lparr>X = 0, Y = 0\<rparr> \<lparr>X = 100, Y = 100\<rparr> 4 0 4)) (object_at 0 500 500 5 5) =
     split (QuadTree [] [] \<lparr>X = 0, Y = 0\<rparr> \<lparr>X = 100, Y = 100\<rparr> 4 0 4) \<and>
   object_at 0 500 500 5 5
     \<notin> set (stored (insert_obj (QuadTree [] [object_at 2 10 10 5 5] \<lparr>X = 0, Y = 0\<rparr> \<lparr>X = 100, Y = 100\<rparr> 1 0 4)
               (object_at 0 500 500 5 5))) \<and>
   children_nodes (insert_obj (QuadTree [] [object_at 2 10 10 5 5] \<lparr>X = 0, Y = 0\<rparr> \<lparr>X = 100, Y = 100\<rparr> 1 0 4)
               (object_at 0 500 500 5 5)) \<noteq> [] \<and>
   object_at 0 500 500 5 5
     \<in> set (node_objects (QuadTree [] [object_at 0 500 500 5 5] \<lparr>X = 0, Y = 0\<rparr> \<lparr>X = 100, Y = 100\<rparr> 1 0 4)) \<and>
   is_inside (QuadTree [] [object_at 0 500 500 5 5] \<lparr>X = 0, Y = 0\<rparr> \<lparr>X = 100, Y = 100\<rparr> 1 0 4)
     (object_at 1 10 10 5 5) \<and>
   object_at 0 500 500 5 5
     \<notin> set (stored (insert_obj (QuadTree [] [object_at 0 500 500 5 5] \<lparr>X = 0, Y = 0\<rparr> \<lparr>X = 100, Y = 100\<rparr> 1 0 4)
               (object_at 1 10 10 5 5))) \<and>
   object_at 0 500 500 5 5
     \<notin> set (retrieve (insert_obj (QuadTree [] [object_at 0 500 500 5 5] \<lparr>X = 0, Y = 0\<rparr> \<lparr>X = 100, Y = 100\<rparr> 1 0 4)
               (object_at 1 10 10 5 5)) [] (object_at 3 0 0 1000 1000)) \<and>
   stored (insert_obj (QuadTree [] [object_at 0 500 500 5 5] \<lparr>X = 0, Y = 0\<rparr> \<lparr>X = 100, Y = 100\<rparr> 1 0 4)
               (object_at 1 10 10 5 5)) = [object_at 1 10 10 5 5]"
proof -
  let ?leaf = "QuadTree [] [] \<lparr>X = 0, Y = 0\<rparr> \<lparr>X = 100, Y = 100\<rparr> 4 0 4"
  let ?full = "QuadTree [] [object_at 2 10 10 5 5] \<lparr>X = 0, Y = 0\<rparr> \<lparr>X = 100, Y = 100\<rparr> 1 0 4"
  let ?held = "QuadTree [] [object_at 0 500 500 5 5] \<lparr>X = 0, Y = 0\<rparr> \<lparr>X = 100, Y = 100\<rparr> 1 0 4"
  let ?a = "object_at 0 500 500 5 5"
  let ?b = "object_at 1 10 10 5 5"
  have a: "insert_obj ?leaf ?a = push_back ?leaf ?a \<and>
      retrieve (insert_obj ?leaf ?a) [] (object_at 1 10 10 5 5) = [] @ node_objects ?leaf @ [?a]"
    using out_of_bounds_handling [of ?leaf ?a "[]" "object_at 1 10 10 5 5", THEN conjunct1]
    by (simp add: push_back_def)
  have b: "insert_obj (split ?leaf) ?a = split ?leaf"
    using out_of_bounds_handling [of "split ?leaf" ?a, THEN conjunct2, THEN conjunct1]
    by (simp add: run_simps)
  have c: "?a \<notin> set (stored (insert_obj ?full ?a))"
    using out_of_bounds_handling [of ?full ?a, THEN conjunct2, THEN conjunct2, THEN conjunct1]
    by (simp add: run_simps)
  have d: "\<not> is_inside ?leaf ?a" "children_nodes (insert_obj ?full ?a) \<noteq> []"
    "?a \<in> set (node_objects ?held)" "is_inside ?held ?b"
    "stored (insert_obj ?held ?b) = [?b]"
    by (simp_all add: run_simps)
  have pre: "children_nodes ?held = [] \<and> unat (max_objects ?held) < Suc (length (node_objects ?held)) \<and>
      level ?held < max_level ?held"
    by simp
  have none: "\<forall>c \<in> set (children_nodes (split ?held)). \<not> is_inside c ?a"
    by (simp add: run_simps)
  note e = out_of_bounds_handling [of ?held ?b, THEN conjunct2, THEN conjunct2, THEN conjunct2,
      THEN mp, OF pre, THEN conjunct2, THEN spec, of ?a, THEN mp, OF none]
  have e1: "?a \<notin> set (stored (insert_obj ?held ?b))"
    using e by blast
  have e2: "?a \<notin> set (retrieve (insert_obj ?held ?b) [] (object_at 3 0 0 1000 1000))"
    using e by blast
  show ?thesis
    using a b c d e1 e2 by (simp add: push_back_def)
qed

end
